theory Spec2Isabelle
  imports Complex_Main "HOL-Library.Log_Nat"
begin

section \<open>Storefront client (src/js/script.js): data and operations\<close>

subsection \<open>JavaScript values and truthiness\<close>

text \<open>
  The functions below read fields of JSON objects with \<open>x || d\<close> and \<open>x && e\<close>.
  A field that is absent (\<open>undefined\<close>, or \<open>null\<close>) is \<open>None\<close>; the empty
  string and the number zero are falsy as well.
\<close>

definition truthy_str :: "string option \<Rightarrow> bool" where
  "truthy_str x = (case x of None \<Rightarrow> False | Some s \<Rightarrow> s \<noteq> [])"

definition or_str :: "string option \<Rightarrow> string \<Rightarrow> string" where
  \<comment> \<open>\<open>x || d\<close> on an optional string\<close>
  "or_str x d = (case x of None \<Rightarrow> d | Some s \<Rightarrow> if s = [] then d else s)"

subsection \<open>escapeHtml\<close>

datatype js_value = JUndefined | JNull | JBool bool | JNum int | JStr string

datatype js_error = TypeError

definition falsy :: "js_value \<Rightarrow> bool" where
  "falsy v = (case v of JUndefined \<Rightarrow> True | JNull \<Rightarrow> True | JBool b \<Rightarrow> \<not> b
                | JNum n \<Rightarrow> n = 0 | JStr s \<Rightarrow> s = [])"

fun escape_char :: "char \<Rightarrow> string" where
  "escape_char c =
     (if c = CHR ''&'' then ''&amp;''
      else if c = CHR ''<'' then ''&lt;''
      else if c = CHR ''>'' then ''&gt;''
      else if c = CHR 0x22 then ''&quot;''
      else if c = CHR 0x27 then ''&#039;''
      else [c])"

definition escapeHtml :: "js_value \<Rightarrow> js_error + string" where
  \<comment> \<open>\<open>if (!text) return ''\<close>; \<open>text.replace\<close> exists on strings only\<close>
  "escapeHtml v =
     (if falsy v then Inr []
      else case v of JStr s \<Rightarrow> Inr (concat (map escape_char s)) | _ \<Rightarrow> Inl TypeError)"

subsection \<open>filterProducts\<close>

record product =
  product_name :: "string option"
  supplier_name :: "string option"
  sku :: "string option"
  category :: "string option"

record catalogue =
  allProducts :: "product list"
  filteredProducts :: "product list"
  activeCategory :: string
  searchQuery :: string

fun startsWith :: "string \<Rightarrow> string \<Rightarrow> bool" where
  "startsWith s [] = True"
| "startsWith [] (q # qs) = False"
| "startsWith (c # s) (q # qs) = (c = q \<and> startsWith s qs)"

fun includes_str :: "string \<Rightarrow> string \<Rightarrow> bool" where
  \<comment> \<open>\<open>s.includes(q)\<close>: \<open>q\<close> occurs in \<open>s\<close> as a contiguous run\<close>
  "includes_str [] q = (q = [])"
| "includes_str (c # s) q = (startsWith (c # s) q \<or> includes_str s q)"

text \<open>
  \<open>String.prototype.toLowerCase\<close> is the case mapping of the platform; the functions
  that call it take it as the parameter \<open>toLowerCase\<close>, and what is proved of them holds
  for every case mapping.
\<close>

definition matchesCategory :: "(string \<Rightarrow> string) \<Rightarrow> string \<Rightarrow> product \<Rightarrow> bool" where
  "matchesCategory toLowerCase cat p =
     (cat = ''all'' \<or>
      (case category p of None \<Rightarrow> False
       | Some c \<Rightarrow> c \<noteq> [] \<and> toLowerCase c = cat))"

definition field_matches :: "string option \<Rightarrow> (string \<Rightarrow> bool) \<Rightarrow> bool" where
  \<comment> \<open>\<open>field && test(field)\<close>\<close>
  "field_matches x test = (case x of None \<Rightarrow> False | Some s \<Rightarrow> s \<noteq> [] \<and> test s)"

definition matchesSearch :: "(string \<Rightarrow> string) \<Rightarrow> string \<Rightarrow> product \<Rightarrow> bool" where
  "matchesSearch toLowerCase q p =
     (field_matches (product_name p) (\<lambda>s. includes_str (toLowerCase s) (toLowerCase q)) \<or>
      field_matches (supplier_name p) (\<lambda>s. includes_str (toLowerCase s) (toLowerCase q)) \<or>
      field_matches (sku p) (\<lambda>s. includes_str s q))"

definition filterProducts :: "(string \<Rightarrow> string) \<Rightarrow> catalogue \<Rightarrow> catalogue" where
  "filterProducts toLowerCase st =
     st\<lparr>filteredProducts :=
          filter (\<lambda>p. matchesCategory toLowerCase (activeCategory st) p \<and>
                      matchesSearch toLowerCase (searchQuery st) p)
            (allProducts st)\<rparr>"

subsection \<open>Numbers\<close>

text \<open>
  A JavaScript number is an IEEE 754 double: a finite value, an infinity or NaN. A finite
  double is given by its exact rational value (the two zeros are not told apart: they
  are equal for \<open>===\<close> and both falsy). \<open>to_double\<close> is the rounding that
  \<open>JSON.parse\<close> and every arithmetic operation apply to an exact result: to the
  nearest double, ties to the even significand, with 53 bits of precision, gradual
  underflow below \<open>2\<^sup>-\<^sup>1\<^sup>0\<^sup>2\<^sup>2\<close> and overflow to an infinity.
\<close>

datatype number = Finite rat | PosInfinity | NegInfinity | NaN

definition exponent :: "rat \<Rightarrow> int" where
  \<comment> \<open>the binary exponent \<open>e\<close> of \<open>x \<noteq> 0\<close>: \<open>2\<^sup>e \<le> \<bar>x\<bar> < 2\<^sup>e\<^sup>+\<^sup>1\<close>\<close>
  "exponent x =
     (if 1 \<le> \<bar>x\<bar> then bitlen \<lfloor>\<bar>x\<bar>\<rfloor> - 1
      else - bitlen (\<lceil>1 / \<bar>x\<bar>\<rceil> - 1))"

definition quantum :: "rat \<Rightarrow> rat" where
  \<comment> \<open>the distance between neighbouring doubles around \<open>x\<close>: 53 significant bits,
      and the least exponent \<open>-1022\<close> for the subnormal numbers\<close>
  "quantum x = 2 powi (max (exponent x) (- 1022) - 52)"

definition round_half_even :: "rat \<Rightarrow> int" where
  \<comment> \<open>the nearest integer, the even one of two that are equally near\<close>
  "round_half_even y =
     (let f = \<lfloor>y\<rfloor>; d = y - of_int f
      in if d < 1 / 2 then f
         else if 1 / 2 < d then f + 1
         else if even f then f else f + 1)"

definition to_double :: "rat \<Rightarrow> number" where
  "to_double x =
     (if x = 0 then Finite 0
      else let r = quantum x * of_int (round_half_even (x / quantum x))
           in if 2 ^ 1024 \<le> \<bar>r\<bar> then (if x < 0 then NegInfinity else PosInfinity)
              else Finite r)"

definition add :: "number \<Rightarrow> number \<Rightarrow> number" where
  \<comment> \<open>\<open>a + b\<close>\<close>
  "add a b =
     (case (a, b) of
        (NaN, _) \<Rightarrow> NaN
      | (_, NaN) \<Rightarrow> NaN
      | (PosInfinity, NegInfinity) \<Rightarrow> NaN
      | (NegInfinity, PosInfinity) \<Rightarrow> NaN
      | (PosInfinity, _) \<Rightarrow> PosInfinity
      | (_, PosInfinity) \<Rightarrow> PosInfinity
      | (NegInfinity, _) \<Rightarrow> NegInfinity
      | (_, NegInfinity) \<Rightarrow> NegInfinity
      | (Finite x, Finite y) \<Rightarrow> to_double (x + y))"






subsection \<open>Checkout totals\<close>









definition exact_quantity :: "rat option \<Rightarrow> rat" where
  "exact_quantity x = (case x of None \<Rightarrow> 1 | Some v \<Rightarrow> if v = 0 then 1 else v)"




text \<open>
  Amounts in whole shillings: every component and quantity that is present is a whole
  number from 0 to \<open>2\<^sup>5\<^sup>3\<close>, the integers that a double holds exactly.
\<close>

definition whole :: "rat \<Rightarrow> bool" where
  "whole x = (of_int \<lfloor>x\<rfloor> = x \<and> 0 \<le> x \<and> x \<le> 2 ^ 53)"

definition whole_field :: "rat option \<Rightarrow> bool" where
  "whole_field x = (case x of None \<Rightarrow> True | Some v \<Rightarrow> whole v)"



subsection \<open>HTTP requests\<close>

text \<open>
  What the network does with one request: after \<open>latency\<close> milliseconds the promise
  returned by \<open>fetch\<close> settles with \<open>result\<close>. \<open>NetworkFailure\<close> is a rejected promise,
  \<open>Aborted\<close> the rejection caused by an abort signal, \<open>Response code body\<close> a
  response with that HTTP status, whose body parses to an object (\<open>Json\<close>) or makes
  the code that reads it throw (\<open>InvalidJson\<close>: \<open>response.json()\<close> throws, or it yields
  \<open>null\<close> and reading a field of it throws).
\<close>

datatype 'a body = InvalidJson | Json 'a

datatype 'a fetch_result = NetworkFailure | Aborted | Response nat "'a body"

record 'a reply =
  latency :: nat
  result :: "'a fetch_result"

definition TIMEOUT_MS :: nat where
  "TIMEOUT_MS = 15000"

definition ok :: "nat \<Rightarrow> bool" where
  \<comment> \<open>\<open>response.ok\<close>\<close>
  "ok code = (200 \<le> code \<and> code \<le> 299)"

definition fetch_plain :: "'a reply \<Rightarrow> nat \<times> 'a fetch_result" where
  \<comment> \<open>\<open>fetch(url, {method, headers})\<close>: settles when the network answers, at
      (delay, result)\<close>
  "fetch_plain r = (latency r, result r)"

definition fetch_with_abort :: "'a reply \<Rightarrow> nat \<times> 'a fetch_result" where
  \<comment> \<open>fetchProducts, fetchProductDetails, fetchPricingCalculation:
      \<open>setTimeout(() => controller.abort(), CONFIG.TIMEOUT_MS)\<close> and
      \<open>signal: controller.signal\<close>; the timer wins when both are due at once\<close>
  "fetch_with_abort r =
     (if latency r < TIMEOUT_MS then (latency r, result r) else (TIMEOUT_MS, Aborted))"

subsection \<open>pollPaymentStatus\<close>

record payment_data =
  status :: string
  error :: "string option"
  order_id :: "string option"
  merchant_request_id :: "string option"

datatype poll_status = PENDING | SUCCESS | FAILED | CANCELLED | TIMEOUT

datatype callback = HandlePaymentSuccess payment_data | HandlePaymentFailure string

text \<open>
  \<open>pollPaymentStatus\<close> schedules an async callback with \<open>setInterval\<close>. The callback
  increments the shared counter, sends one status request and awaits the answer; what
  follows the \<open>await\<close> runs when the answer arrives, which may be after later ticks.
  The model is the event loop of this one function: time in milliseconds since the call,
  ticks at the multiples of \<open>pollInterval\<close>, and for every attempt the delay and the
  result of its request, given by the environment. The bodies of the two handlers (DOM
  and storage) are outside the model; a run records the calls made to them.

  \<open>Query t k\<close> is the status request of attempt \<open>k\<close>, sent at time \<open>t\<close>;
  \<open>Fired t s cb\<close> is the handler call \<open>cb\<close> made at time \<open>t\<close>, tagged with the
  branch that made it.
\<close>

datatype event = Query nat nat | Fired nat poll_status callback

record poller =
  attempts :: nat
  pollTimer :: bool  \<comment> \<open>the interval is still scheduled\<close>
  inflight :: "(nat \<times> payment_data fetch_result) list"
     \<comment> \<open>requests awaited, in the order issued: (time at which it settles, result)\<close>
  events :: "event list"

definition maxAttempts :: nat where
  "maxAttempts = 30"

definition pollInterval :: nat where
  "pollInterval = 2000"

definition timeout_message :: string where
  "timeout_message = ''Payment confirmation timeout. Please check your M-Pesa inbox.''"

definition stop :: "nat \<Rightarrow> poll_status \<Rightarrow> callback \<Rightarrow> poller \<Rightarrow> poller" where
  \<comment> \<open>\<open>clearInterval(pollTimer)\<close>, then the handler\<close>
  "stop t s cb st = st\<lparr>pollTimer := False, events := events st @ [Fired t s cb]\<rparr>"

definition after_try :: "nat \<Rightarrow> poller \<Rightarrow> poller" where
  \<comment> \<open>the code after the try/catch: \<open>if (attempts >= maxAttempts)\<close>\<close>
  "after_try t st =
     (if attempts st \<ge> maxAttempts
      then stop t TIMEOUT (HandlePaymentFailure timeout_message) st
      else st)"

definition resume :: "nat \<Rightarrow> payment_data fetch_result \<Rightarrow> poller \<Rightarrow> poller" where
  \<comment> \<open>the rest of the interval callback once its \<open>await fetch\<close> has settled, at time \<open>t\<close>;
      every exception ends in the catch block, which only logs\<close>
  "resume t r st =
     (case r of
        NetworkFailure \<Rightarrow> after_try t st
      | Aborted \<Rightarrow> after_try t st
      | Response code b \<Rightarrow>
          if \<not> ok code then after_try t st
          else (case b of
                  InvalidJson \<Rightarrow> after_try t st
                | Json d \<Rightarrow>
                    if status d = ''SUCCESS'' then stop t SUCCESS (HandlePaymentSuccess d) st
                    else if status d = ''FAILED''
                      then stop t FAILED
                             (HandlePaymentFailure (or_str (error d) ''Payment was declined'')) st
                    else if status d = ''CANCELLED''
                      then stop t CANCELLED (HandlePaymentFailure ''Payment was cancelled'') st
                    else after_try t st))"

definition tick :: "nat \<Rightarrow> (nat \<Rightarrow> payment_data reply) \<Rightarrow> poller \<Rightarrow> poller" where
  \<comment> \<open>the interval fires at time \<open>t\<close>: \<open>attempts++\<close> and the request of this attempt is
      sent, with no abort signal; \<open>env k\<close> is what the network does with attempt \<open>k\<close>\<close>
  "tick t env st =
     (if pollTimer st
      then let k = attempts st + 1; (d, r) = fetch_plain (env k)
           in st\<lparr>attempts := k,
                 events := events st @ [Query t k],
                 inflight := inflight st @ [(t + d, r)]\<rparr>
      else st)"

definition settle :: "nat \<Rightarrow> poller \<Rightarrow> poller" where
  \<comment> \<open>every awaited request that settles before time \<open>T\<close> resumes its callback, in the
      order of settling (requests settling together: in the order issued)\<close>
  "settle T st =
     fold (\<lambda>(s, r). resume s r)
       (sort_key fst (filter (\<lambda>(s, r). s < T) (inflight st)))
       (st\<lparr>inflight := filter (\<lambda>(s, r). \<not> s < T) (inflight st)\<rparr>)"

definition start :: poller where
  \<comment> \<open>\<open>let attempts = 0; const pollTimer = setInterval(..., pollInterval)\<close>\<close>
  "start = \<lparr>attempts = 0, pollTimer = True, inflight = [], events = []\<rparr>"

fun pollPaymentStatus :: "(nat \<Rightarrow> payment_data reply) \<Rightarrow> nat \<Rightarrow> poller" where
  \<comment> \<open>the poller after \<open>n\<close> periods of the interval: everything that happens before time
      \<open>(n + 1) * pollInterval\<close>. The interval fires first at \<open>pollInterval\<close>; a request
      settling exactly when the interval is due is handled after that tick.\<close>
  "pollPaymentStatus env 0 = start"
| "pollPaymentStatus env (Suc n) =
     settle ((n + 2) * pollInterval)
       (tick ((n + 1) * pollInterval) env (pollPaymentStatus env n))"

definition callbacks :: "event list \<Rightarrow> event list" where
  "callbacks es = filter (\<lambda>e. case e of Query t k \<Rightarrow> False | Fired t s cb \<Rightarrow> True) es"

definition queries :: "event list \<Rightarrow> event list" where
  "queries es = filter (\<lambda>e. case e of Query t k \<Rightarrow> True | Fired t s cb \<Rightarrow> False) es"

definition poll_state :: "poller \<Rightarrow> poll_status" where
  \<comment> \<open>PollState.status of the specification: the status of the latest handler call,
      PENDING before any\<close>
  "poll_state st =
     (case rev (callbacks (events st)) of
        Fired t s cb # es \<Rightarrow> s
      | _ \<Rightarrow> PENDING)"

definition terminal :: "payment_data fetch_result \<Rightarrow> bool" where
  \<comment> \<open>the response carries one of the statuses SUCCESS, FAILED, CANCELLED\<close>
  "terminal r =
     (case r of
        Response code (Json d) \<Rightarrow>
          ok code \<and> (status d = ''SUCCESS'' \<or> status d = ''FAILED'' \<or> status d = ''CANCELLED'')
      | _ \<Rightarrow> False)"

definition query_error :: "payment_data fetch_result \<Rightarrow> bool" where
  \<comment> \<open>the request was rejected (a network error) or answered with a status that is
      not 2xx\<close>
  "query_error r =
     (case r of NetworkFailure \<Rightarrow> True | Aborted \<Rightarrow> True
      | Response code b \<Rightarrow> \<not> ok code)"

definition prompt :: "(nat \<Rightarrow> payment_data reply) \<Rightarrow> bool" where
  \<comment> \<open>every request settles before the interval fires again\<close>
  "prompt env = (\<forall>k. latency (env k) < pollInterval)"

definition nonterminal_upto :: "(nat \<Rightarrow> payment_data reply) \<Rightarrow> nat \<Rightarrow> bool" where
  \<comment> \<open>none of the answers to attempts 1 to \<open>n\<close> is terminal\<close>
  "nonterminal_upto env n = list_all (\<lambda>k. \<not> terminal (result (env k))) [1..<Suc n]"

definition issued :: "nat \<Rightarrow> event list" where
  \<comment> \<open>the requests of attempts 1 to \<open>n\<close>, one per interval\<close>
  "issued n = map (\<lambda>k. Query (k * pollInterval) k) [1..<Suc n]"

definition reply_at :: "(nat \<Rightarrow> payment_data reply) \<Rightarrow> nat \<Rightarrow> nat \<times> payment_data fetch_result" where
  \<comment> \<open>the entry that the tick of attempt \<open>k\<close> adds to \<open>inflight\<close>\<close>
  "reply_at env k = (k * pollInterval + latency (env k), result (env k))"

subsection \<open>Concrete inputs\<close>

definition pending_data :: payment_data where
  "pending_data =
     \<lparr>status = ''PENDING'', error = None, order_id = None, merchant_request_id = None\<rparr>"

definition success_data :: payment_data where
  "success_data =
     \<lparr>status = ''SUCCESS'', error = None, order_id = Some ''ORD-1'',
      merchant_request_id = None\<rparr>"

definition failed_data :: payment_data where
  "failed_data =
     \<lparr>status = ''FAILED'', error = Some ''Insufficient funds'', order_id = None,
      merchant_request_id = None\<rparr>"

definition cancelled_data :: payment_data where
  "cancelled_data =
     \<lparr>status = ''CANCELLED'', error = Some ''Request cancelled by user'', order_id = None,
      merchant_request_id = None\<rparr>"

definition answer :: "nat \<Rightarrow> payment_data \<Rightarrow> payment_data reply" where
  \<comment> \<open>a 200 response with this body, after this many milliseconds\<close>
  "answer ms d = \<lparr>latency = ms, result = Response 200 (Json d)\<rparr>"

definition healthy_reply :: "nat \<Rightarrow> payment_data reply" where
  \<comment> \<open>pending twice, then success, each answer after 120 ms\<close>
  "healthy_reply k = (if k = 3 then answer 120 success_data else answer 120 pending_data)"

definition slow_first_reply :: "nat \<Rightarrow> payment_data reply" where
  \<comment> \<open>the payment has succeeded; the answer to the first request takes 3 seconds\<close>
  "slow_first_reply k = (if k = 1 then answer 3000 success_data else answer 0 success_data)"

text \<open>
  A case mapping for the examples: the letters A to Z to lower case, every other
  character unchanged, which is what \<open>toLowerCase\<close> does on ASCII text.
\<close>

definition ascii_lower_char :: "char \<Rightarrow> char" where
  "ascii_lower_char c =
     (case map_of (zip ''ABCDEFGHIJKLMNOPQRSTUVWXYZ'' ''abcdefghijklmnopqrstuvwxyz'') c of
        None \<Rightarrow> c | Some d \<Rightarrow> d)"

definition ascii_lower :: "string \<Rightarrow> string" where
  "ascii_lower s = map ascii_lower_char s"

definition steel_pipe :: product where
  "steel_pipe =
     \<lparr>product_name = Some ''Steel Pipe'', supplier_name = None, sku = None,
      category = Some ''Metal''\<rparr>"

definition nameless :: product where
  "nameless =
     \<lparr>product_name = None, supplier_name = None, sku = None, category = Some ''Metal''\<rparr>"

definition demo_catalogue :: catalogue where
  "demo_catalogue =
     \<lparr>allProducts = [steel_pipe, nameless],
      filteredProducts = [], activeCategory = ''metal'', searchQuery = ''PIPE''\<rparr>"




definition slow_30th_reply :: "nat \<Rightarrow> payment_data reply" where
  \<comment> \<open>always pending; the thirtieth answer takes 3 seconds\<close>
  "slow_30th_reply k = (if k = 30 then answer 3000 pending_data else answer 0 pending_data)"

definition late_failure_reply :: "nat \<Rightarrow> payment_data reply" where
  \<comment> \<open>the first answer, FAILED, takes 5 seconds; the others say SUCCESS at once\<close>
  "late_failure_reply k = (if k = 1 then answer 5000 failed_data else answer 0 success_data)"

definition steady_pending_reply :: "nat \<Rightarrow> payment_data reply" where
  \<comment> \<open>always pending, each answer after 100 ms\<close>
  "steady_pending_reply k = answer 100 pending_data"

definition instant_reply :: "nat \<Rightarrow> payment_data reply" where
  \<comment> \<open>pending, pending, success, each answer at once\<close>
  "instant_reply k = (if k = 3 then answer 0 success_data else answer 0 pending_data)"

definition late_error_reply :: "nat \<Rightarrow> payment_data reply" where
  \<comment> \<open>always pending at once, but the fifth request fails after 51 seconds\<close>
  "late_error_reply k =
     (if k = 5 then \<lparr>latency = 51000, result = NetworkFailure\<rparr> else answer 0 pending_data)"

definition error_fifth_reply :: "nat \<Rightarrow> payment_data reply" where
  \<comment> \<open>always pending after 120 ms, but the fifth request gets a 503 after 300 ms\<close>
  "error_fifth_reply k =
     (if k = 5 then \<lparr>latency = 300, result = Response 503 InvalidJson\<rparr>
      else answer 120 pending_data)"

definition slow_success_reply :: "nat \<Rightarrow> payment_data reply" where
  \<comment> \<open>the first answer, SUCCESS, takes 20.5 seconds; the others say pending at once\<close>
  "slow_success_reply k = (if k = 1 then answer 20500 success_data else answer 0 pending_data)"

definition idle_poller :: poller where
  \<comment> \<open>the poller awaiting the answer to its first request\<close>
  "idle_poller = \<lparr>attempts = 1, pollTimer = True, inflight = [], events = [Query 2000 1]\<rparr>"

definition last_poller :: poller where
  \<comment> \<open>the poller awaiting the answer to its thirtieth request\<close>
  "last_poller = \<lparr>attempts = 30, pollTimer = True, inflight = [], events = issued 30\<rparr>"

section \<open>Lemmas about the poller\<close>

subsection \<open>One callback\<close>

lemma resume_cases:
  "(resume t r st = st \<and> attempts st < maxAttempts) \<or>
   (\<exists>s cb. s \<noteq> PENDING \<and> resume t r st = stop t s cb st)"
  by (auto simp: resume_def after_try_def split: fetch_result.splits body.splits)

lemma terminal_simps [simp]:
  "\<not> terminal NetworkFailure" "\<not> terminal Aborted" "\<not> terminal (Response c InvalidJson)"
  "terminal (Response c (Json d)) =
     (ok c \<and> (status d = ''SUCCESS'' \<or> status d = ''FAILED'' \<or> status d = ''CANCELLED''))"
  by (simp_all add: terminal_def)

lemma resume_quiet:
  "\<not> terminal r \<Longrightarrow> attempts st < maxAttempts \<Longrightarrow> resume t r st = st"
  by (auto simp: resume_def after_try_def terminal_def split: fetch_result.splits body.splits)

lemma resume_timeout:
  "\<not> terminal r \<Longrightarrow> maxAttempts \<le> attempts st \<Longrightarrow>
   resume t r st = stop t TIMEOUT (HandlePaymentFailure timeout_message) st"
  by (auto simp: resume_def after_try_def terminal_def split: fetch_result.splits body.splits)

lemma query_error_not_terminal: "query_error r \<Longrightarrow> \<not> terminal r"
  by (auto simp: query_error_def terminal_def split: fetch_result.splits body.splits)

lemma resume_timer: "pollTimer (resume t r st) \<Longrightarrow> resume t r st = st"
  using resume_cases [of t r st] by (auto simp: stop_def)

lemma resume_off: "\<not> pollTimer st \<Longrightarrow> \<not> pollTimer (resume t r st)"
  using resume_cases [of t r st] by (auto simp: stop_def)

lemma resume_queries: "queries (events (resume t r st)) = queries (events st)"
  using resume_cases [of t r st] by (auto simp: stop_def queries_def)

lemma resume_attempts: "attempts (resume t r st) = attempts st"
  using resume_cases [of t r st] by (auto simp: stop_def)

lemma resume_events: "\<exists>es. events (resume t r st) = events st @ es"
  using resume_cases [of t r st] by (auto simp: stop_def)

subsection \<open>The requests that settle in one period\<close>

lemma fold_resume_quiet:
  "attempts st < maxAttempts \<Longrightarrow> \<forall>x\<in>set xs. \<not> terminal (snd x)
     \<Longrightarrow> fold (\<lambda>(s, r). resume s r) xs st = st"
  by (induction xs) (auto simp: resume_quiet)

lemma fold_resume_timer:
  "pollTimer (fold (\<lambda>(s, r). resume s r) xs st) \<Longrightarrow> fold (\<lambda>(s, r). resume s r) xs st = st"
proof (induction xs arbitrary: st)
  case Nil
  show ?case by simp
next
  case (Cons x xs)
  obtain s r where x: "x = (s, r)" by (cases x)
  from Cons.prems have on: "pollTimer (fold (\<lambda>(s, r). resume s r) xs (resume s r st))"
    by (simp add: x)
  then have eq: "fold (\<lambda>(s, r). resume s r) xs (resume s r st) = resume s r st"
    by (rule Cons.IH)
  with on have "resume s r st = st" by (simp add: resume_timer)
  with eq show ?case by (simp add: x)
qed

lemma fold_resume_keeps:
  "\<not> pollTimer st \<Longrightarrow> \<not> pollTimer (fold (\<lambda>(s, r). resume s r) xs st)"
  "queries (events (fold (\<lambda>(s, r). resume s r) xs st)) = queries (events st)"
  "attempts (fold (\<lambda>(s, r). resume s r) xs st) = attempts st"
  "\<exists>es. events (fold (\<lambda>(s, r). resume s r) xs st) = events st @ es"
proof (induction xs arbitrary: st)
  case Nil
  { case 1 then show ?case by simp }
  { case 2 show ?case by simp }
  { case 3 show ?case by simp }
  { case 4 show ?case by simp }
next
  case (Cons x xs)
  { case 1 then show ?case using Cons.IH(1) by (cases x) (simp add: resume_off) }
  { case 2 show ?case using Cons.IH(2) by (cases x) (simp add: resume_queries) }
  { case 3 show ?case using Cons.IH(3) by (cases x) (simp add: resume_attempts) }
  { case 4 show ?case
    proof (cases x)
      case (Pair s r)
      obtain es1 where "events (resume s r st) = events st @ es1"
        using resume_events by blast
      moreover obtain es2 where "events (fold (\<lambda>(s, r). resume s r) xs (resume s r st))
          = events (resume s r st) @ es2"
        using Cons.IH(4) by blast
      ultimately show ?thesis by (simp add: Pair)
    qed }
qed

lemma settle_quiet:
  assumes "attempts st < maxAttempts"
    "\<forall>x\<in>set (inflight st). fst x < T \<longrightarrow> \<not> terminal (snd x)"
  shows "settle T st = st\<lparr>inflight := filter (\<lambda>(s, r). \<not> s < T) (inflight st)\<rparr>"
  unfolding settle_def using assms
  by (intro fold_resume_quiet) auto

lemma settle_idle: "inflight st = [] \<Longrightarrow> settle T st = st"
  by (simp add: settle_def)

lemma settle_single:
  "inflight st = [(s, r)] \<Longrightarrow> s < T \<Longrightarrow> settle T st = resume s r (st\<lparr>inflight := []\<rparr>)"
  by (simp add: settle_def)

lemma settle_timer:
  assumes "pollTimer (settle T st)"
  shows "pollTimer st \<and> events (settle T st) = events st"
proof -
  have "settle T st = st\<lparr>inflight := filter (\<lambda>(s, r). \<not> s < T) (inflight st)\<rparr>"
    using assms unfolding settle_def by (rule fold_resume_timer)
  with assms show ?thesis by simp
qed

lemma settle_keeps:
  "\<not> pollTimer st \<Longrightarrow> \<not> pollTimer (settle T st)"
  "queries (events (settle T st)) = queries (events st)"
  "attempts (settle T st) = attempts st"
  "\<exists>es. events (settle T st) = events st @ es"
  unfolding settle_def
  using fold_resume_keeps
    [where st = "st\<lparr>inflight := filter (\<lambda>(s, r). \<not> s < T) (inflight st)\<rparr>"]
  by simp_all

lemma tick_off: "\<not> pollTimer st \<Longrightarrow> tick t env st = st"
  by (simp add: tick_def)

lemma tick_on:
  "pollTimer st \<Longrightarrow> tick t env st =
     st\<lparr>attempts := Suc (attempts st), events := events st @ [Query t (Suc (attempts st))],
        inflight := inflight st @
          [(t + latency (env (Suc (attempts st))), result (env (Suc (attempts st))))]\<rparr>"
  by (simp add: tick_def fetch_plain_def Let_def)

subsection \<open>Traces\<close>

lemma issued_Suc: "issued (Suc n) = issued n @ [Query (Suc n * pollInterval) (Suc n)]"
  by (simp add: issued_def)

lemma issued_0: "issued 0 = []"
  by (simp add: issued_def)

lemma callbacks_issued: "callbacks (issued n) = []"
  by (simp add: callbacks_def issued_def)

lemma queries_issued: "queries (issued n) = issued n"
  by (simp add: queries_def issued_def)

lemma length_issued: "length (issued n) = n"
  by (simp add: issued_def)

lemma callbacks_append: "callbacks (xs @ ys) = callbacks xs @ callbacks ys"
  by (simp add: callbacks_def)

lemma callbacks_Fired: "callbacks [Fired t s cb] = [Fired t s cb]"
  by (simp add: callbacks_def)

lemma queries_append: "queries (xs @ ys) = queries xs @ queries ys"
  by (simp add: queries_def)

lemma queries_Fired: "queries [Fired t s cb] = []"
  by (simp add: queries_def)

lemmas run_simps = tick_def settle_def resume_def stop_def after_try_def fetch_plain_def
  start_def pollInterval_def maxAttempts_def ok_def answer_def Let_def

subsection \<open>Runs in which nothing terminal has been answered yet\<close>

lemma poll_quiet:
  "n < maxAttempts \<Longrightarrow>
   (\<forall>k. 1 \<le> k \<and> k \<le> n \<longrightarrow>
      \<not> terminal (result (env k)) \<or> (n + 1) * pollInterval \<le> k * pollInterval + latency (env k)) \<Longrightarrow>
   pollPaymentStatus env n =
     \<lparr>attempts = n, pollTimer = True,
      inflight = filter (\<lambda>(s, r). \<not> s < (n + 1) * pollInterval) (map (reply_at env) [1..<Suc n]),
      events = issued n\<rparr>"
proof (induction n)
  case 0
  then show ?case by (simp add: start_def issued_0)
next
  case (Suc n)
  define T where "T = (n + 2) * pollInterval"
  define old where
    "old = filter (\<lambda>(s, r). \<not> s < (n + 1) * pollInterval) (map (reply_at env) [1..<Suc n])"
  define tk where "tk = tick ((n + 1) * pollInterval) env (pollPaymentStatus env n)"
  have later: "\<not> terminal (result (env k)) \<or> T \<le> k * pollInterval + latency (env k)"
    if "1 \<le> k" "k \<le> Suc n" for k
    using Suc.prems(2) that by (simp add: T_def)
  have "\<not> terminal (result (env k)) \<or>
      (n + 1) * pollInterval \<le> k * pollInterval + latency (env k)" if "1 \<le> k" "k \<le> n" for k
  proof -
    have "(n + 1) * pollInterval \<le> T"
      by (simp add: T_def)
    with later [of k] that show ?thesis by auto
  qed
  with Suc have st: "pollPaymentStatus env n =
      \<lparr>attempts = n, pollTimer = True, inflight = old, events = issued n\<rparr>"
    by (simp add: old_def)
  have tk: "tk = \<lparr>attempts = Suc n, pollTimer = True,
      inflight = old @ [reply_at env (Suc n)], events = issued (Suc n)\<rparr>"
    unfolding tk_def st by (simp add: tick_def fetch_plain_def reply_at_def issued_Suc)
  have quiet: "\<forall>x\<in>set (inflight tk). fst x < T \<longrightarrow> \<not> terminal (snd x)"
    using later by (fastforce simp: tk old_def reply_at_def)
  have "settle T tk = tk\<lparr>inflight := filter (\<lambda>(s, r). \<not> s < T) (inflight tk)\<rparr>"
    using Suc.prems(1) quiet by (intro settle_quiet) (simp_all add: tk)
  moreover have "filter (\<lambda>(s, r). \<not> s < T) (inflight tk)
      = filter (\<lambda>(s, r). \<not> s < T) (map (reply_at env) [1..<Suc (Suc n)])"
    by (auto simp: tk old_def T_def intro!: filter_cong)
  ultimately have "settle T tk = \<lparr>attempts = Suc n, pollTimer = True,
      inflight = filter (\<lambda>(s, r). \<not> s < T) (map (reply_at env) [1..<Suc (Suc n)]),
      events = issued (Suc n)\<rparr>"
    by (simp add: tk)
  moreover have "pollPaymentStatus env (Suc n) = settle T tk"
    by (simp add: T_def tk_def)
  ultimately show ?case by (simp add: T_def)
qed

lemma poll_quiet_prompt:
  assumes "n < maxAttempts"
    and "\<forall>k. 1 \<le> k \<and> k \<le> n \<longrightarrow> \<not> terminal (result (env k)) \<and> latency (env k) < pollInterval"
  shows "pollPaymentStatus env n =
     \<lparr>attempts = n, pollTimer = True, inflight = [], events = issued n\<rparr>"
proof -
  have "filter (\<lambda>(s, r). \<not> s < (n + 1) * pollInterval) (map (reply_at env) [1..<Suc n]) = []"
  proof -
    have "k * pollInterval + latency (env k) < (n + 1) * pollInterval" if "1 \<le> k" "k \<le> n" for k
    proof -
      have "k * pollInterval + latency (env k) < (k + 1) * pollInterval"
        using assms(2) that by simp
      also have "\<dots> \<le> (n + 1) * pollInterval"
        using that by (intro mult_le_mono1) simp
      finally show ?thesis .
    qed
    then show ?thesis by (auto simp: filter_empty_conv reply_at_def)
  qed
  with poll_quiet [of n env] assms show ?thesis by simp
qed

subsection \<open>Runs in which every request settles before the next tick\<close>

lemma poll_frozen_step:
  "\<not> pollTimer st \<Longrightarrow> inflight st = [] \<Longrightarrow> settle T (tick t env st) = st"
  by (simp add: tick_off settle_idle)

lemma poll_frozen:
  "\<not> pollTimer (pollPaymentStatus env n) \<Longrightarrow> inflight (pollPaymentStatus env n) = [] \<Longrightarrow>
   pollPaymentStatus env (n + m) = pollPaymentStatus env n"
  by (induction m) (simp_all add: poll_frozen_step)

lemma poll_prompt_step:
  assumes l: "latency (env (Suc n)) < pollInterval"
    and st: "pollPaymentStatus env n =
      \<lparr>attempts = n, pollTimer = True, inflight = [], events = issued n\<rparr>"
  shows "pollPaymentStatus env (Suc n) =
      resume (Suc n * pollInterval + latency (env (Suc n))) (result (env (Suc n)))
        \<lparr>attempts = Suc n, pollTimer = True, inflight = [], events = issued (Suc n)\<rparr>"
proof -
  define tk where "tk = tick ((n + 1) * pollInterval) env (pollPaymentStatus env n)"
  have tk: "tk = \<lparr>attempts = Suc n, pollTimer = True,
      inflight = [(Suc n * pollInterval + latency (env (Suc n)), result (env (Suc n)))],
      events = issued (Suc n)\<rparr>"
    unfolding tk_def st by (simp add: tick_def fetch_plain_def issued_Suc)
  have "settle ((n + 2) * pollInterval) tk =
      resume (Suc n * pollInterval + latency (env (Suc n))) (result (env (Suc n)))
        (tk\<lparr>inflight := []\<rparr>)"
    using l by (intro settle_single) (simp_all add: tk)
  moreover have "pollPaymentStatus env (Suc n) = settle ((n + 2) * pollInterval) tk"
    by (simp add: tk_def)
  ultimately show ?thesis by (simp add: tk)
qed

lemma poll_prompt_shape:
  assumes "prompt env"
  shows "pollPaymentStatus env n =
           \<lparr>attempts = n, pollTimer = True, inflight = [], events = issued n\<rparr> \<and> n < maxAttempts
       \<or> (\<exists>m s cb. 1 \<le> m \<and> m \<le> n \<and> m \<le> maxAttempts \<and> s \<noteq> PENDING \<and>
            pollPaymentStatus env n =
              \<lparr>attempts = m, pollTimer = False, inflight = [],
               events = issued m @ [Fired (m * pollInterval + latency (env m)) s cb]\<rparr>)"
proof (induction n)
  case 0
  show ?case by (simp add: start_def issued_0 maxAttempts_def)
next
  case (Suc n)
  from Suc show ?case
  proof (elim disjE conjE exE)
    assume st: "pollPaymentStatus env n =
        \<lparr>attempts = n, pollTimer = True, inflight = [], events = issued n\<rparr>"
      and n: "n < maxAttempts"
    define t where "t = Suc n * pollInterval + latency (env (Suc n))"
    define st' where "st' = \<lparr>attempts = Suc n, pollTimer = True, inflight = [],
      events = issued (Suc n)\<rparr>"
    have l: "latency (env (Suc n)) < pollInterval"
      using assms by (simp add: prompt_def)
    have step: "pollPaymentStatus env (Suc n) = resume t (result (env (Suc n))) st'"
      unfolding t_def st'_def by (rule poll_prompt_step [OF l st])
    from resume_cases [of t "result (env (Suc n))" st'] show ?thesis
    proof (elim disjE conjE exE)
      assume "resume t (result (env (Suc n))) st' = st'" "attempts st' < maxAttempts"
      then show ?thesis using step by (simp add: st'_def)
    next
      fix s cb
      assume s: "s \<noteq> PENDING"
      assume "resume t (result (env (Suc n))) st' = stop t s cb st'"
      then have "pollPaymentStatus env (Suc n) =
          \<lparr>attempts = Suc n, pollTimer = False, inflight = [],
           events = issued (Suc n) @ [Fired (Suc n * pollInterval + latency (env (Suc n))) s cb]\<rparr>"
        using step by (simp add: stop_def st'_def t_def)
      moreover have "1 \<le> Suc n" "Suc n \<le> Suc n" "Suc n \<le> maxAttempts"
        using n by simp_all
      ultimately show ?thesis using s by blast
    qed
  next
    fix m s cb
    assume m: "1 \<le> m" "m \<le> n" "m \<le> maxAttempts" "s \<noteq> PENDING"
      and st: "pollPaymentStatus env n =
        \<lparr>attempts = m, pollTimer = False, inflight = [],
         events = issued m @ [Fired (m * pollInterval + latency (env m)) s cb]\<rparr>"
    have "pollPaymentStatus env (Suc n) = pollPaymentStatus env n"
      using poll_frozen [of env n 1] by (simp add: st)
    then show ?thesis using m st by (intro disjI2 exI [of _ m] exI [of _ s] exI [of _ cb]) simp
  qed
qed

subsection \<open>The interval once cleared\<close>

lemma poll_timer_no_callback:
  "pollTimer (pollPaymentStatus env n) \<Longrightarrow> callbacks (events (pollPaymentStatus env n)) = []"
proof (induction n)
  case 0
  show ?case by (simp add: start_def callbacks_def)
next
  case (Suc n)
  define tk where "tk = tick ((n + 1) * pollInterval) env (pollPaymentStatus env n)"
  have run: "pollPaymentStatus env (Suc n) = settle ((n + 2) * pollInterval) tk"
    by (simp add: tk_def)
  with Suc.prems have tk: "pollTimer tk"
    and ev: "events (pollPaymentStatus env (Suc n)) = events tk"
    using settle_timer [of "(n + 2) * pollInterval" tk] by simp_all
  from tk have on: "pollTimer (pollPaymentStatus env n)"
    by (auto simp: tk_def tick_def split: if_splits)
  then have "callbacks (events tk) = callbacks (events (pollPaymentStatus env n))"
    by (simp add: tk_def tick_on callbacks_def)
  with on ev Suc.IH show ?case by simp
qed

lemma poll_off_step:
  assumes "\<not> pollTimer (pollPaymentStatus env n)"
  shows "\<not> pollTimer (pollPaymentStatus env (Suc n)) \<and>
         queries (events (pollPaymentStatus env (Suc n))) =
           queries (events (pollPaymentStatus env n))"
  using assms settle_keeps(1,2)
    [where st = "pollPaymentStatus env n" and T = "(n + 2) * pollInterval"]
  by (simp add: tick_off)

lemma poll_off:
  "\<not> pollTimer (pollPaymentStatus env n) \<Longrightarrow>
   \<not> pollTimer (pollPaymentStatus env (n + m)) \<and>
   queries (events (pollPaymentStatus env (n + m))) = queries (events (pollPaymentStatus env n))"
proof (induction m)
  case 0
  then show ?case by simp
next
  case (Suc m)
  then show ?case using poll_off_step [of env "n + m"] by simp
qed

subsection \<open>Stepping a run by hand\<close>

lemma nonterminal_uptoD:
  "nonterminal_upto env n \<Longrightarrow> 1 \<le> k \<Longrightarrow> k \<le> n \<Longrightarrow> \<not> terminal (result (env k))"
  by (auto simp: nonterminal_upto_def list_all_iff)

lemma poll_step:
  "pollPaymentStatus env (Suc n) =
     settle ((n + 2) * pollInterval) (tick ((n + 1) * pollInterval) env (pollPaymentStatus env n))"
  by simp

lemma issued_step: "m = Suc n \<Longrightarrow> issued m = issued n @ [Query (m * pollInterval) m]"
  by (simp add: issued_Suc)

lemma poll_state_issued:
  "poll_state \<lparr>attempts = a, pollTimer = b, inflight = xs, events = issued n\<rparr> = PENDING"
  by (simp add: poll_state_def callbacks_issued)

lemma poll_state_fired:
  "poll_state \<lparr>attempts = a, pollTimer = b, inflight = xs,
     events = issued n @ [Fired t s cb]\<rparr> = s"
  by (simp add: poll_state_def callbacks_issued callbacks_append callbacks_Fired)

lemma poll_all_quiet:
  assumes "prompt env" and "nonterminal_upto env maxAttempts"
  shows "pollPaymentStatus env 30 =
      \<lparr>attempts = 30, pollTimer = False, inflight = [],
       events = issued 30 @ [Fired (60000 + latency (env 30)) TIMEOUT
                               (HandlePaymentFailure timeout_message)]\<rparr>"
proof -
  have quiet: "\<not> terminal (result (env k)) \<and> latency (env k) < pollInterval"
    if "1 \<le> k" "k \<le> maxAttempts" for k
    using assms that by (simp add: nonterminal_uptoD prompt_def)
  have before: "pollPaymentStatus env 29 =
      \<lparr>attempts = 29, pollTimer = True, inflight = [], events = issued 29\<rparr>"
    using quiet by (intro poll_quiet_prompt) (simp_all add: maxAttempts_def)
  have "pollPaymentStatus env (Suc 29) =
      resume (Suc 29 * pollInterval + latency (env (Suc 29))) (result (env (Suc 29)))
        \<lparr>attempts = Suc 29, pollTimer = True, inflight = [], events = issued (Suc 29)\<rparr>"
    using quiet [of 30] before by (intro poll_prompt_step) (simp_all add: maxAttempts_def)
  also have "\<dots> = stop (Suc 29 * pollInterval + latency (env (Suc 29))) TIMEOUT
        (HandlePaymentFailure timeout_message)
        \<lparr>attempts = Suc 29, pollTimer = True, inflight = [], events = issued (Suc 29)\<rparr>"
    using quiet [of 30] by (intro resume_timeout) (simp_all add: maxAttempts_def)
  finally show ?thesis
    by (simp add: stop_def pollInterval_def)
qed

subsection \<open>Concrete runs\<close>

lemma prompt_healthy: "prompt healthy_reply"
  by (simp add: prompt_def healthy_reply_def answer_def pollInterval_def)

lemma healthy_run:
  "pollPaymentStatus healthy_reply 3 =
     \<lparr>attempts = 3, pollTimer = False, inflight = [],
      events = [Query 2000 1, Query 4000 2, Query 6000 3,
                Fired 6120 SUCCESS (HandlePaymentSuccess success_data)]\<rparr>"
  by (simp add: numeral_3_eq_3 run_simps healthy_reply_def success_data_def pending_data_def)

lemma prompt_steady: "prompt steady_pending_reply"
  by (simp add: prompt_def steady_pending_reply_def answer_def pollInterval_def)

lemma nonterminal_steady: "nonterminal_upto steady_pending_reply n"
  by (simp add: nonterminal_upto_def list_all_iff steady_pending_reply_def answer_def
      pending_data_def)

lemma steady_30:
  "events (pollPaymentStatus steady_pending_reply 30) =
     issued 30 @ [Fired 60100 TIMEOUT (HandlePaymentFailure timeout_message)]"
  using poll_all_quiet [OF prompt_steady nonterminal_steady]
  by (simp add: steady_pending_reply_def answer_def)

lemma nonterminal_slow_30th: "nonterminal_upto slow_30th_reply n"
  by (simp add: nonterminal_upto_def list_all_iff slow_30th_reply_def answer_def
      pending_data_def)

lemma slow_30th_29:
  "pollPaymentStatus slow_30th_reply 29 =
     \<lparr>attempts = 29, pollTimer = True, inflight = [], events = issued 29\<rparr>"
  by (rule poll_quiet_prompt)
     (simp_all add: maxAttempts_def slow_30th_reply_def answer_def pending_data_def
        pollInterval_def)

lemma slow_30th_30:
  "pollPaymentStatus slow_30th_reply 30 =
     \<lparr>attempts = 30, pollTimer = True,
      inflight = [(63000, Response 200 (Json pending_data))], events = issued 30\<rparr>"
proof -
  have "pollPaymentStatus slow_30th_reply (Suc 29) =
     \<lparr>attempts = 30, pollTimer = True,
      inflight = [(63000, Response 200 (Json pending_data))], events = issued (Suc 29)\<rparr>"
    unfolding poll_step slow_30th_29
    by (simp add: run_simps slow_30th_reply_def issued_step [of 30 29])
  then show ?thesis by simp
qed

lemma slow_30th_31:
  "pollPaymentStatus slow_30th_reply 31 =
     \<lparr>attempts = 31, pollTimer = False, inflight = [],
      events = issued 31 @
        [Fired 62000 TIMEOUT (HandlePaymentFailure timeout_message),
         Fired 63000 TIMEOUT (HandlePaymentFailure timeout_message)]\<rparr>"
proof -
  have "pollPaymentStatus slow_30th_reply (Suc 30) =
     \<lparr>attempts = 31, pollTimer = False, inflight = [],
      events = issued (Suc 30) @
        [Fired 62000 TIMEOUT (HandlePaymentFailure timeout_message),
         Fired 63000 TIMEOUT (HandlePaymentFailure timeout_message)]\<rparr>"
    unfolding poll_step slow_30th_30
    by (simp add: run_simps slow_30th_reply_def issued_step [of 31 30] pending_data_def
        timeout_message_def)
  then show ?thesis by simp
qed

lemma late_failure_2:
  "pollPaymentStatus late_failure_reply 2 =
     \<lparr>attempts = 2, pollTimer = False, inflight = [(7000, Response 200 (Json failed_data))],
      events = [Query 2000 1, Query 4000 2,
                Fired 4000 SUCCESS (HandlePaymentSuccess success_data)]\<rparr>"
  by (simp add: numeral_2_eq_2 run_simps late_failure_reply_def success_data_def)

lemma late_failure_3:
  "pollPaymentStatus late_failure_reply 3 =
     \<lparr>attempts = 2, pollTimer = False, inflight = [],
      events = [Query 2000 1, Query 4000 2,
                Fired 4000 SUCCESS (HandlePaymentSuccess success_data),
                Fired 7000 FAILED (HandlePaymentFailure ''Insufficient funds'')]\<rparr>"
proof -
  have "pollPaymentStatus late_failure_reply (Suc 2) =
     \<lparr>attempts = 2, pollTimer = False, inflight = [],
      events = [Query 2000 1, Query 4000 2,
                Fired 4000 SUCCESS (HandlePaymentSuccess success_data),
                Fired 7000 FAILED (HandlePaymentFailure ''Insufficient funds'')]\<rparr>"
    unfolding poll_step late_failure_2
    by (simp add: run_simps failed_data_def or_str_def)
  then show ?thesis by (simp add: numeral_3_eq_3)
qed

lemma late_error_inflight:
  "filter (\<lambda>(s, r). \<not> s < (29 + 1) * pollInterval) (map (reply_at late_error_reply) [1..<Suc 29])
     = [(61000, NetworkFailure)]"
proof -
  have "[1..<Suc 29] = [1..<5] @ [5..<30]"
    using upt_add_eq_append [of 1 5 25] by simp
  moreover have "[5..<30] = 5 # [6..<30]"
    using upt_conv_Cons [of 5 30] by simp
  ultimately have split: "[1..<Suc 29] = [1..<5] @ 5 # [6..<30]"
    by simp
  have early: "filter (\<lambda>(s, r). \<not> s < 60000) (map (reply_at late_error_reply) [1..<5]) = []"
    by (auto simp: filter_empty_conv reply_at_def late_error_reply_def answer_def
        pollInterval_def)
  have late: "filter (\<lambda>(s, r). \<not> s < 60000) (map (reply_at late_error_reply) [6..<30]) = []"
    by (auto simp: filter_empty_conv reply_at_def late_error_reply_def answer_def
        pollInterval_def)
  show ?thesis
    unfolding split using early late
    by (simp add: reply_at_def late_error_reply_def pollInterval_def)
qed

lemma late_error_29:
  "pollPaymentStatus late_error_reply 29 =
     \<lparr>attempts = 29, pollTimer = True, inflight = [(61000, NetworkFailure)],
      events = issued 29\<rparr>"
proof -
  have "\<forall>k. 1 \<le> k \<and> k \<le> 29 \<longrightarrow> \<not> terminal (result (late_error_reply k))"
    by (simp add: late_error_reply_def answer_def pending_data_def)
  then show ?thesis
    using poll_quiet [of 29 late_error_reply]
    by (simp only: late_error_inflight) (simp add: maxAttempts_def)
qed

lemma late_error_30:
  "pollPaymentStatus late_error_reply 30 =
     \<lparr>attempts = 30, pollTimer = False, inflight = [],
      events = issued 30 @
        [Fired 60000 TIMEOUT (HandlePaymentFailure timeout_message),
         Fired 61000 TIMEOUT (HandlePaymentFailure timeout_message)]\<rparr>"
proof -
  have "pollPaymentStatus late_error_reply (Suc 29) =
     \<lparr>attempts = 30, pollTimer = False, inflight = [],
      events = issued (Suc 29) @
        [Fired 60000 TIMEOUT (HandlePaymentFailure timeout_message),
         Fired 61000 TIMEOUT (HandlePaymentFailure timeout_message)]\<rparr>"
    unfolding poll_step late_error_29
    by (simp add: run_simps late_error_reply_def issued_step [of 30 29] pending_data_def
        timeout_message_def)
  then show ?thesis by simp
qed

lemma nonterminal_error_fifth: "nonterminal_upto error_fifth_reply n"
  by (simp add: nonterminal_upto_def list_all_iff error_fifth_reply_def answer_def
      pending_data_def)

lemma slow_success_10:
  "pollPaymentStatus slow_success_reply 10 =
     \<lparr>attempts = 10, pollTimer = True,
      inflight = [(22500, Response 200 (Json success_data))], events = issued 10\<rparr>"
proof -
  have split: "[1..<Suc 10] = [1..<2] @ [2..<11]"
    using upt_add_eq_append [of 1 2 9] by simp
  have first: "[1..<2] = [1::nat]"
    by (simp add: numeral_2_eq_2)
  have rest: "filter (\<lambda>(s, r). \<not> s < 22000) (map (reply_at slow_success_reply) [2..<11]) = []"
    by (auto simp: filter_empty_conv reply_at_def slow_success_reply_def answer_def
        pollInterval_def)
  have "filter (\<lambda>(s, r). \<not> s < (10 + 1) * pollInterval)
      (map (reply_at slow_success_reply) [1..<Suc 10]) =
        [(22500, Response 200 (Json success_data))]"
    unfolding split first using rest
    by (simp add: reply_at_def slow_success_reply_def answer_def pollInterval_def)
  moreover have "\<forall>k. 1 \<le> k \<and> k \<le> 10 \<longrightarrow>
      \<not> terminal (result (slow_success_reply k)) \<or>
      (10 + 1) * pollInterval \<le> k * pollInterval + latency (slow_success_reply k)"
    by (simp add: slow_success_reply_def answer_def pending_data_def pollInterval_def)
  ultimately show ?thesis
    using poll_quiet [of 10 slow_success_reply] by (simp add: maxAttempts_def)
qed

lemma slow_success_11:
  "pollPaymentStatus slow_success_reply 11 =
     \<lparr>attempts = 11, pollTimer = False, inflight = [],
      events = issued 11 @ [Fired 22500 SUCCESS (HandlePaymentSuccess success_data)]\<rparr>"
proof -
  have "pollPaymentStatus slow_success_reply (Suc 10) =
     \<lparr>attempts = 11, pollTimer = False, inflight = [],
      events = issued (Suc 10) @ [Fired 22500 SUCCESS (HandlePaymentSuccess success_data)]\<rparr>"
    unfolding poll_step slow_success_10
    by (simp add: run_simps slow_success_reply_def issued_step [of 11 10] pending_data_def
        success_data_def)
  then show ?thesis by simp
qed

section \<open>Lemmas about the catalogue and the cart\<close>

subsection \<open>escapeHtml\<close>

lemma escape_char_safe:
  "CHR ''<'' \<notin> set (escape_char c) \<and> CHR ''>'' \<notin> set (escape_char c) \<and>
   CHR 0x22 \<notin> set (escape_char c) \<and> CHR 0x27 \<notin> set (escape_char c)"
  by simp

lemma escape_all_safe:
  "CHR ''<'' \<notin> set (concat (map escape_char s)) \<and>
   CHR ''>'' \<notin> set (concat (map escape_char s)) \<and>
   CHR 0x22 \<notin> set (concat (map escape_char s)) \<and>
   CHR 0x27 \<notin> set (concat (map escape_char s))"
  using escape_char_safe by (induction s) auto

subsection \<open>The search\<close>

lemma startsWith_iff: "startsWith s q \<longleftrightarrow> (\<exists>post. s = q @ post)"
  by (induction s q rule: startsWith.induct) auto

lemma includes_str_iff: "includes_str s q \<longleftrightarrow> (\<exists>pre post. s = pre @ q @ post)"
proof (induction s)
  case Nil
  then show ?case by simp
next
  case (Cons c s)
  show ?case
  proof
    assume "includes_str (c # s) q"
    then consider "startsWith (c # s) q" | "includes_str s q" by auto
    then show "\<exists>pre post. c # s = pre @ q @ post"
    proof cases
      case 1
      then obtain post where "c # s = q @ post" by (auto simp: startsWith_iff)
      then have "c # s = [] @ q @ post" by simp
      then show ?thesis by blast
    next
      case 2
      then obtain pre post where "s = pre @ q @ post" using Cons.IH by blast
      then have "c # s = (c # pre) @ q @ post" by simp
      then show ?thesis by blast
    qed
  next
    assume "\<exists>pre post. c # s = pre @ q @ post"
    then obtain pre post where e: "c # s = pre @ q @ post" by blast
    show "includes_str (c # s) q"
    proof (cases pre)
      case Nil
      with e have "startsWith (c # s) q" by (auto simp: startsWith_iff)
      then show ?thesis by simp
    next
      case (Cons d pre')
      with e have "s = pre' @ q @ post" by simp
      then have "includes_str s q" using Cons.IH by blast
      then show ?thesis by simp
    qed
  qed
qed

lemma field_matches_present:
  "field_matches x test \<Longrightarrow> \<exists>s. x = Some s \<and> s \<noteq> [] \<and> test s"
  by (auto simp: field_matches_def split: option.splits)

lemma field_matches_absent: "\<not> truthy_str x \<Longrightarrow> \<not> field_matches x test"
  by (auto simp: field_matches_def truthy_str_def split: option.splits)

lemma lower_steel: "ascii_lower ''Steel Pipe'' = ''steel pipe''"
  and lower_pipe: "ascii_lower ''PIPE'' = ''pipe''"
  and lower_metal: "ascii_lower ''Metal'' = ''metal''"
  and lower_empty: "ascii_lower [] = []"
  by (simp_all add: ascii_lower_def ascii_lower_char_def)

lemma demo_filtered:
  "filteredProducts (filterProducts ascii_lower demo_catalogue) = [steel_pipe]"
  by (simp add: demo_catalogue_def filterProducts_def matchesCategory_def matchesSearch_def
      field_matches_def steel_pipe_def nameless_def lower_steel lower_pipe lower_metal)

lemma demo_filtered_all:
  "filteredProducts
     (filterProducts ascii_lower
        (demo_catalogue\<lparr>activeCategory := ''all'', searchQuery := []\<rparr>)) = [steel_pipe]"
  by (simp add: demo_catalogue_def filterProducts_def matchesCategory_def matchesSearch_def
      field_matches_def steel_pipe_def nameless_def lower_steel lower_empty)

subsection \<open>Doubles that are whole numbers\<close>




lemma whole_iff: "whole x \<longleftrightarrow> (\<exists>k. x = of_int k \<and> 0 \<le> k \<and> k \<le> 2 ^ 53)"
proof
  assume w: "whole x"
  then have x: "x = of_int \<lfloor>x\<rfloor>" unfolding whole_def by (elim conjE) (rule sym)
  moreover from w have "0 \<le> \<lfloor>x\<rfloor>" unfolding whole_def by (elim conjE) simp
  moreover from w have "x \<le> of_int (2 ^ 53)" unfolding whole_def by (elim conjE) simp
  then have "\<lfloor>x\<rfloor> \<le> 2 ^ 53"
    by (subst (asm) x) (simp only: of_int_le_iff)
  ultimately show "\<exists>k. x = of_int k \<and> 0 \<le> k \<and> k \<le> 2 ^ 53" by blast
next
  assume "\<exists>k. x = of_int k \<and> 0 \<le> k \<and> k \<le> 2 ^ 53"
  then obtain k where k: "x = of_int k" "0 \<le> k" "k \<le> 2 ^ 53" by blast
  then have "(of_int k :: rat) \<le> of_int (2 ^ 53)" by (simp only: of_int_le_iff)
  with k show "whole x" by (simp add: whole_def)
qed


lemma whole_0 [simp]: "whole 0" and whole_1 [simp]: "whole 1"
  by (simp_all add: whole_def)








lemma whole_quantity: "whole_field x \<Longrightarrow> whole (exact_quantity x)"
  by (auto simp: whole_field_def exact_quantity_def split: option.splits)


lemma quantity_ge_1: "whole_field x \<Longrightarrow> 1 \<le> exact_quantity x"
proof -
  assume "whole_field x"
  then have "whole (exact_quantity x)" by (rule whole_quantity)
  then obtain k where k: "exact_quantity x = of_int k" "0 \<le> k"
    by (auto simp: whole_iff)
  moreover have "exact_quantity x \<noteq> 0"
    by (auto simp: exact_quantity_def split: option.splits)
  ultimately have "1 \<le> k" by auto
  then have "(of_int 1 :: rat) \<le> of_int k" by (simp only: of_int_le_iff)
  with k show ?thesis by simp
qed

subsection \<open>The totals of a cart of whole amounts\<close>











subsection \<open>Rounding a given rational to a double\<close>









subsection \<open>The example carts\<close>

lemma whole_numeral [simp]: "numeral k \<le> (2::rat) ^ 53 \<Longrightarrow> whole (numeral k)"
  by (simp add: whole_def)

lemma to_double_0 [simp]: "to_double 0 = Finite 0"
  by (simp add: to_double_def)









section \<open>The claims\<close>

text \<open>
  C1, as the code has it. In every run, once a handler has been called the interval is
  cleared and no further status request is issued. When every request settles before the
  interval fires again, at most one handler call is ever made (success, failure or
  timeout), and exactly one has been made before the interval would fire a thirty-first
  time, at 62000 ms: it is made when the answer to some attempt \<open>m\<close> from 1 to 30
  arrives, at \<open>m\<close> times 2000 ms plus the delay of that answer. (When all thirty answers
  are non-terminal and take 100 ms each, that is at 60100 ms: nothing has been called
  when the thirtieth interval elapses at 60000 ms.)
\<close>

theorem poller_one_terminal_callback:
  "(callbacks (events (pollPaymentStatus env n)) \<noteq> [] \<longrightarrow>
      \<not> pollTimer (pollPaymentStatus env (n + m)) \<and>
      queries (events (pollPaymentStatus env (n + m))) =
        queries (events (pollPaymentStatus env n))) \<and>
   (prompt env \<longrightarrow>
      length (callbacks (events (pollPaymentStatus env n))) \<le> 1 \<and>
      (maxAttempts \<le> n \<longrightarrow>
         length (callbacks (events (pollPaymentStatus env n))) = 1 \<and>
         (\<exists>k s cb. 1 \<le> k \<and> k \<le> maxAttempts \<and> s \<noteq> PENDING \<and>
            k * pollInterval + latency (env k) < (maxAttempts + 1) * pollInterval \<and>
            callbacks (events (pollPaymentStatus env n)) =
              [Fired (k * pollInterval + latency (env k)) s cb])))"
proof (intro conjI impI)
  assume "callbacks (events (pollPaymentStatus env n)) \<noteq> []"
  then have off: "\<not> pollTimer (pollPaymentStatus env n)"
    using poll_timer_no_callback by blast
  from poll_off [OF off, of m]
  show "\<not> pollTimer (pollPaymentStatus env (n + m))"
    and "queries (events (pollPaymentStatus env (n + m))) =
      queries (events (pollPaymentStatus env n))"
    by simp_all
next
  assume "prompt env"
  from poll_prompt_shape [OF this, of n]
  show "length (callbacks (events (pollPaymentStatus env n))) \<le> 1"
    by (auto simp: callbacks_issued callbacks_append callbacks_Fired)
next
  assume "prompt env" and n: "maxAttempts \<le> n"
  from poll_prompt_shape [OF this(1), of n] n
  show "length (callbacks (events (pollPaymentStatus env n))) = 1"
    by (auto simp: callbacks_issued callbacks_append callbacks_Fired)
next
  assume p: "prompt env" and n: "maxAttempts \<le> n"
  from poll_prompt_shape [OF p, of n] n
  obtain k s cb where k: "1 \<le> k" "k \<le> maxAttempts" "s \<noteq> PENDING"
    and st: "pollPaymentStatus env n =
      \<lparr>attempts = k, pollTimer = False, inflight = [],
       events = issued k @ [Fired (k * pollInterval + latency (env k)) s cb]\<rparr>"
    by auto
  from p have l: "latency (env k) < pollInterval"
    by (simp add: prompt_def)
  from k(2) have "k * pollInterval \<le> maxAttempts * pollInterval"
    by simp
  from add_le_less_mono [OF this l]
  have "k * pollInterval + latency (env k) < (maxAttempts + 1) * pollInterval"
    by simp
  moreover from st have "callbacks (events (pollPaymentStatus env n)) =
      [Fired (k * pollInterval + latency (env k)) s cb]"
    by (simp add: callbacks_issued callbacks_append callbacks_Fired)
  ultimately show "\<exists>k s cb. 1 \<le> k \<and> k \<le> maxAttempts \<and> s \<noteq> PENDING \<and>
      k * pollInterval + latency (env k) < (maxAttempts + 1) * pollInterval \<and>
      callbacks (events (pollPaymentStatus env n)) =
        [Fired (k * pollInterval + latency (env k)) s cb]"
    using k by blast
qed

theorem poller_one_terminal_callback_witness:
  "callbacks (events (pollPaymentStatus healthy_reply 3)) \<noteq> [] \<and>
   \<not> pollTimer (pollPaymentStatus healthy_reply (3 + 27)) \<and>
   queries (events (pollPaymentStatus healthy_reply (3 + 27))) =
     [Query 2000 1, Query 4000 2, Query 6000 3] \<and>
   prompt healthy_reply \<and> maxAttempts \<le> 30 \<and>
   length (callbacks (events (pollPaymentStatus healthy_reply 30))) = 1 \<and>
   callbacks (events (pollPaymentStatus healthy_reply 3)) =
     [Fired (3 * pollInterval + latency (healthy_reply 3)) SUCCESS
        (HandlePaymentSuccess success_data)] \<and>
   3 * pollInterval + latency (healthy_reply 3) = 6120 \<and>
   prompt steady_pending_reply \<and>
   callbacks (events (pollPaymentStatus steady_pending_reply 29)) = [] \<and>
   callbacks (events (pollPaymentStatus steady_pending_reply 30)) =
     [Fired (30 * pollInterval + latency (steady_pending_reply 30)) TIMEOUT
        (HandlePaymentFailure timeout_message)] \<and>
   30 * pollInterval + latency (steady_pending_reply 30) = 60100"
proof -
  have h: "callbacks (events (pollPaymentStatus healthy_reply 3)) =
      [Fired 6120 SUCCESS (HandlePaymentSuccess success_data)]"
    by (simp add: healthy_run callbacks_def)
  have t: "3 * pollInterval + latency (healthy_reply 3) = 6120"
    "30 * pollInterval + latency (steady_pending_reply 30) = 60100"
    by (simp_all add: pollInterval_def healthy_reply_def steady_pending_reply_def answer_def)
  have "pollPaymentStatus steady_pending_reply 29 =
      \<lparr>attempts = 29, pollTimer = True, inflight = [], events = issued 29\<rparr>"
    by (rule poll_quiet_prompt)
      (simp_all add: maxAttempts_def steady_pending_reply_def answer_def terminal_def
        pending_data_def pollInterval_def)
  then have s29: "callbacks (events (pollPaymentStatus steady_pending_reply 29)) = []"
    by (simp add: callbacks_issued)
  have s30: "callbacks (events (pollPaymentStatus steady_pending_reply 30)) =
      [Fired 60100 TIMEOUT (HandlePaymentFailure timeout_message)]"
    by (simp add: steady_30 callbacks_issued callbacks_append callbacks_Fired)
  have a: "\<not> pollTimer (pollPaymentStatus healthy_reply (3 + 27)) \<and>
      queries (events (pollPaymentStatus healthy_reply (3 + 27))) =
        queries (events (pollPaymentStatus healthy_reply 3))"
    using poller_one_terminal_callback [of healthy_reply 3 27] h by simp
  have b: "length (callbacks (events (pollPaymentStatus healthy_reply 30))) = 1"
    using poller_one_terminal_callback [of healthy_reply 30 0] prompt_healthy
    by (simp add: maxAttempts_def)
  have q: "queries (events (pollPaymentStatus healthy_reply 3)) =
      [Query 2000 1, Query 4000 2, Query 6000 3]"
    by (simp add: healthy_run queries_def)
  from a b q h t s29 s30 prompt_healthy prompt_steady show ?thesis
    by (simp add: maxAttempts_def)
qed

text \<open>
  C1 as stated fails: the payment has succeeded, the answer to the first request takes
  3 seconds and the answer to the second is immediate. The second answer calls
  handlePaymentSuccess at 4000 ms, the first calls it again at 5000 ms.
\<close>

theorem poller_two_success_callbacks:
  "events (pollPaymentStatus slow_first_reply 2) =
     [Query 2000 1, Query 4000 2,
      Fired 4000 SUCCESS (HandlePaymentSuccess success_data),
      Fired 5000 SUCCESS (HandlePaymentSuccess success_data)] \<and>
   length (callbacks (events (pollPaymentStatus slow_first_reply 2))) = 2"
  by (simp add: numeral_2_eq_2 run_simps slow_first_reply_def success_data_def callbacks_def)

text \<open>
  C2, as the code has it. When every request settles before the interval fires again, the
  attempt counter never exceeds maxAttempts (30); the status is PENDING exactly while the
  interval is scheduled, and once it has left PENDING it keeps the terminal value it took.
\<close>

theorem poller_counter_and_status:
  assumes "prompt env"
  shows "attempts (pollPaymentStatus env n) \<le> maxAttempts \<and>
         (pollTimer (pollPaymentStatus env n) \<longleftrightarrow>
            poll_state (pollPaymentStatus env n) = PENDING) \<and>
         (poll_state (pollPaymentStatus env n) \<noteq> PENDING \<longrightarrow>
            poll_state (pollPaymentStatus env (n + m)) = poll_state (pollPaymentStatus env n))"
  using poll_prompt_shape [OF assms, of n]
proof (elim disjE conjE exE)
  assume "pollPaymentStatus env n =
      \<lparr>attempts = n, pollTimer = True, inflight = [], events = issued n\<rparr>" "n < maxAttempts"
  then show ?thesis by (simp add: poll_state_issued)
next
  fix k s cb
  assume k: "k \<le> maxAttempts" "s \<noteq> PENDING"
    and st: "pollPaymentStatus env n =
      \<lparr>attempts = k, pollTimer = False, inflight = [],
       events = issued k @ [Fired (k * pollInterval + latency (env k)) s cb]\<rparr>"
  have "pollPaymentStatus env (n + m) = pollPaymentStatus env n"
    by (rule poll_frozen) (simp_all add: st)
  with k st show ?thesis by (simp add: poll_state_fired)
qed

theorem poller_counter_and_status_witness:
  "prompt healthy_reply \<and> attempts (pollPaymentStatus healthy_reply 3) = 3 \<and>
   3 \<le> maxAttempts \<and> \<not> pollTimer (pollPaymentStatus healthy_reply 3) \<and>
   poll_state (pollPaymentStatus healthy_reply 3) = SUCCESS \<and>
   poll_state (pollPaymentStatus healthy_reply (3 + 40)) = SUCCESS"
  using poller_counter_and_status [OF prompt_healthy, of 3 40] prompt_healthy
  by (simp add: healthy_run poll_state_def callbacks_def maxAttempts_def)

text \<open>
  C2 as stated fails twice. When the thirtieth answer takes 3 seconds the interval fires a
  thirty-first time and the counter reaches 31. When a FAILED answer to the first request
  arrives 5 seconds late, after the second request was answered SUCCESS, the status goes
  from SUCCESS to FAILED.
\<close>

theorem poller_counter_overrun:
  "attempts (pollPaymentStatus slow_30th_reply 31) = 31 \<and> maxAttempts = 30 \<and>
   poll_state (pollPaymentStatus late_failure_reply 2) = SUCCESS \<and>
   poll_state (pollPaymentStatus late_failure_reply 3) = FAILED"
  by (simp add: slow_30th_31 late_failure_2 late_failure_3 poll_state_def callbacks_def
      maxAttempts_def)

text \<open>
  C3, as the code has it. When the answers to all thirty attempts are non-terminal and
  each arrives before the interval fires again, the requests are issued at 2000, 4000, ...,
  60000 ms and nothing else happens before the thirtieth answer; when it arrives, at
  60000 ms plus its latency, the timeout failure is reported, once, and from then on the
  run holds exactly thirty requests and that one callback.
\<close>

theorem poller_timeout_after_30:
  assumes "prompt env" and "nonterminal_upto env maxAttempts"
  shows "(n < maxAttempts \<longrightarrow> events (pollPaymentStatus env n) = issued n) \<and>
         (maxAttempts \<le> n \<longrightarrow>
            events (pollPaymentStatus env n) =
              issued 30 @ [Fired (60000 + latency (env 30)) TIMEOUT
                             (HandlePaymentFailure timeout_message)] \<and>
            length (queries (events (pollPaymentStatus env n))) = 30 \<and>
            length (callbacks (events (pollPaymentStatus env n))) = 1)"
proof -
  have quiet: "\<not> terminal (result (env k)) \<and> latency (env k) < pollInterval"
    if "1 \<le> k" "k \<le> maxAttempts" for k
    using assms that by (simp add: nonterminal_uptoD prompt_def)
  have before: "pollPaymentStatus env j =
      \<lparr>attempts = j, pollTimer = True, inflight = [], events = issued j\<rparr>"
    if "j < maxAttempts" for j
    using that quiet by (intro poll_quiet_prompt) simp_all
  note at30 = poll_all_quiet [OF assms]
  have after: "pollPaymentStatus env n = pollPaymentStatus env 30" if "maxAttempts \<le> n"
  proof -
    have "pollPaymentStatus env (30 + (n - 30)) = pollPaymentStatus env 30"
      by (rule poll_frozen) (simp_all add: at30)
    with that show ?thesis by (simp add: maxAttempts_def)
  qed
  show ?thesis
    using before [of n] after
    by (auto simp: at30 queries_append queries_issued queries_Fired length_issued
        callbacks_append callbacks_issued callbacks_Fired)
qed

theorem poller_timeout_after_30_witness:
  "prompt steady_pending_reply \<and> nonterminal_upto steady_pending_reply maxAttempts \<and>
   29 < maxAttempts \<and> events (pollPaymentStatus steady_pending_reply 29) = issued 29 \<and>
   maxAttempts \<le> 30 \<and>
   events (pollPaymentStatus steady_pending_reply 30) =
     issued 30 @ [Fired 60100 TIMEOUT (HandlePaymentFailure timeout_message)]"
  using poller_timeout_after_30 [OF prompt_steady nonterminal_steady, of 29]
    poller_timeout_after_30 [OF prompt_steady nonterminal_steady, of 30]
    prompt_steady nonterminal_steady
  by (simp add: maxAttempts_def steady_pending_reply_def answer_def)

text \<open>
  C3 as stated fails. With every answer pending and the thirtieth taking 3 seconds, 31
  requests are issued and the timeout failure is reported twice, at 62000 and 63000 ms.
  With every answer pending after 100 ms, the timeout is reported at 60100 ms.
\<close>

theorem poller_timeout_twice:
  "nonterminal_upto slow_30th_reply 31 \<and>
   events (pollPaymentStatus slow_30th_reply 31) =
     issued 31 @
       [Fired 62000 TIMEOUT (HandlePaymentFailure timeout_message),
        Fired 63000 TIMEOUT (HandlePaymentFailure timeout_message)] \<and>
   length (queries (events (pollPaymentStatus slow_30th_reply 31))) = 31 \<and>
   length (callbacks (events (pollPaymentStatus slow_30th_reply 31))) = 2 \<and>
   nonterminal_upto steady_pending_reply 30 \<and>
   events (pollPaymentStatus steady_pending_reply 30) =
     issued 30 @ [Fired 60100 TIMEOUT (HandlePaymentFailure timeout_message)]"
  by (simp add: nonterminal_slow_30th nonterminal_steady slow_30th_31 steady_30
      queries_append queries_issued length_issued callbacks_append callbacks_issued)
     (simp add: queries_def callbacks_def)

text \<open>
  C4, as the code has it. When the first two answers are non-terminal, the third is
  SUCCESS and each arrives before the interval fires again, the poller issues exactly three
  requests, at 2000, 4000 and 6000 ms (setInterval fires first after one interval), and
  calls handlePaymentSuccess with the payload of the third answer when that answer
  arrives, at 6000 ms plus its latency; nothing happens afterwards.
\<close>

theorem poller_pending_pending_success:
  assumes "\<not> terminal (result (env 1))" "\<not> terminal (result (env 2))"
    and "result (env 3) = Response code (Json d)" "ok code" "status d = ''SUCCESS''"
    and "latency (env 1) < pollInterval" "latency (env 2) < pollInterval"
      "latency (env 3) < pollInterval"
    and "3 \<le> n"
  shows "events (pollPaymentStatus env n) =
           [Query 2000 1, Query 4000 2, Query 6000 3,
            Fired (6000 + latency (env 3)) SUCCESS (HandlePaymentSuccess d)]"
proof -
  have two: "pollPaymentStatus env 2 =
      \<lparr>attempts = 2, pollTimer = True, inflight = [], events = issued 2\<rparr>"
  proof (rule poll_quiet_prompt)
    show "2 < maxAttempts" by (simp add: maxAttempts_def)
    show "\<forall>k. 1 \<le> k \<and> k \<le> 2 \<longrightarrow>
        \<not> terminal (result (env k)) \<and> latency (env k) < pollInterval"
    proof (intro allI impI)
      fix k :: nat assume "1 \<le> k \<and> k \<le> 2"
      then have "k = 1 \<or> k = 2" by auto
      with assms show "\<not> terminal (result (env k)) \<and> latency (env k) < pollInterval" by auto
    qed
  qed
  have "pollPaymentStatus env (Suc 2) =
      resume (Suc 2 * pollInterval + latency (env (Suc 2))) (result (env (Suc 2)))
        \<lparr>attempts = Suc 2, pollTimer = True, inflight = [], events = issued (Suc 2)\<rparr>"
    using assms(8) two by (intro poll_prompt_step) (simp_all add: numeral_3_eq_3)
  then have three: "pollPaymentStatus env 3 =
      \<lparr>attempts = 3, pollTimer = False, inflight = [],
       events = [Query 2000 1, Query 4000 2, Query 6000 3,
                 Fired (6000 + latency (env 3)) SUCCESS (HandlePaymentSuccess d)]\<rparr>"
    using assms(3-5)
    by (simp add: numeral_3_eq_3 resume_def stop_def issued_def pollInterval_def)
  have "pollPaymentStatus env (3 + (n - 3)) = pollPaymentStatus env 3"
    by (rule poll_frozen) (simp_all add: three)
  with assms(9) three show ?thesis by simp
qed

theorem poller_pending_pending_success_witness:
  "\<not> terminal (result (healthy_reply 1)) \<and> \<not> terminal (result (healthy_reply 2)) \<and>
   result (healthy_reply 3) = Response 200 (Json success_data) \<and> ok 200 \<and>
   status success_data = ''SUCCESS'' \<and>
   latency (healthy_reply 1) < pollInterval \<and> latency (healthy_reply 2) < pollInterval \<and>
   latency (healthy_reply 3) < pollInterval \<and> (3::nat) \<le> 30 \<and>
   events (pollPaymentStatus healthy_reply 30) =
     [Query 2000 1, Query 4000 2, Query 6000 3,
      Fired 6120 SUCCESS (HandlePaymentSuccess success_data)]"
proof -
  have h: "\<not> terminal (result (healthy_reply 1))" "\<not> terminal (result (healthy_reply 2))"
    "result (healthy_reply 3) = Response 200 (Json success_data)" "ok 200"
    "status success_data = ''SUCCESS''"
    "latency (healthy_reply 1) < pollInterval" "latency (healthy_reply 2) < pollInterval"
    "latency (healthy_reply 3) < pollInterval" "(3::nat) \<le> 30"
    by (simp_all add: healthy_reply_def answer_def pending_data_def success_data_def ok_def
        pollInterval_def)
  have l: "latency (healthy_reply 3) = 120"
    by (simp add: healthy_reply_def answer_def)
  from poller_pending_pending_success [OF h] h l show ?thesis
    by simp
qed

text \<open>
  C4 as stated fails: with the answers pending, pending, success, each arriving at once,
  nothing is issued before 2000 ms, the three requests are issued at 2000, 4000 and
  6000 ms, and handlePaymentSuccess is called at 6000 ms.
\<close>

theorem poller_first_query_after_one_interval:
  "events (pollPaymentStatus instant_reply 0) = [] \<and>
   events (pollPaymentStatus instant_reply 1) = [Query 2000 1] \<and>
   events (pollPaymentStatus instant_reply 3) =
     [Query 2000 1, Query 4000 2, Query 6000 3,
      Fired 6000 SUCCESS (HandlePaymentSuccess success_data)]"
  by (simp add: numeral_3_eq_3 run_simps instant_reply_def success_data_def pending_data_def)

text \<open>
  C5, as the code has it. When the answer to a status request is a network error or a
  non-2xx response, and the attempt counter is below maxAttempts at the moment the error
  is handled, nothing changes: no callback, the counter as it was, the interval still
  scheduled. When the counter has reached maxAttempts at that moment, as for an error on
  the thirtieth attempt, only the timeout failure is reported. In particular, when the
  answers to the attempts before \<open>k\<close> are non-terminal and attempt \<open>k < 30\<close> gets an
  error, then up to the next tick no callback has fired, the counter is \<open>k\<close>, and attempt
  \<open>k + 1\<close> is issued one interval after attempt \<open>k\<close>.
\<close>

theorem poller_query_error_swallowed:
  "(query_error r \<and> attempts st < maxAttempts \<longrightarrow> resume t r st = st) \<and>
   (query_error r \<and> maxAttempts \<le> attempts st \<longrightarrow>
      resume t r st = stop t TIMEOUT (HandlePaymentFailure timeout_message) st) \<and>
   (1 \<le> k \<and> k < maxAttempts \<and> nonterminal_upto env k \<and> query_error (result (env k)) \<longrightarrow>
      attempts (pollPaymentStatus env k) = k \<and> pollTimer (pollPaymentStatus env k) \<and>
      callbacks (events (pollPaymentStatus env k)) = [] \<and>
      attempts (pollPaymentStatus env (Suc k)) = Suc k \<and>
      (\<exists>rest. events (pollPaymentStatus env (Suc k)) =
         issued k @ Query (Suc k * pollInterval) (Suc k) # rest))"
proof (intro conjI impI)
  assume "query_error r \<and> attempts st < maxAttempts"
  then show "resume t r st = st"
    by (simp add: resume_quiet query_error_not_terminal)
next
  assume "query_error r \<and> maxAttempts \<le> attempts st"
  then show "resume t r st = stop t TIMEOUT (HandlePaymentFailure timeout_message) st"
    by (simp add: resume_timeout query_error_not_terminal)
next
  assume a: "1 \<le> k \<and> k < maxAttempts \<and> nonterminal_upto env k \<and> query_error (result (env k))"
  then have "\<forall>j. 1 \<le> j \<and> j \<le> k \<longrightarrow> \<not> terminal (result (env j)) \<or>
      (k + 1) * pollInterval \<le> j * pollInterval + latency (env j)"
    using nonterminal_uptoD [of env k] by blast
  with a have st: "pollPaymentStatus env k =
     \<lparr>attempts = k, pollTimer = True,
      inflight = filter (\<lambda>(s, r). \<not> s < (k + 1) * pollInterval) (map (reply_at env) [1..<Suc k]),
      events = issued k\<rparr>"
    by (intro poll_quiet) simp_all
  show "attempts (pollPaymentStatus env k) = k" "pollTimer (pollPaymentStatus env k)"
    "callbacks (events (pollPaymentStatus env k)) = []"
    by (simp_all add: st callbacks_issued)
  define tk where "tk = tick ((k + 1) * pollInterval) env (pollPaymentStatus env k)"
  have tk: "attempts tk = Suc k" "events tk = issued k @ [Query (Suc k * pollInterval) (Suc k)]"
    by (simp_all add: tk_def st tick_def fetch_plain_def)
  have run: "pollPaymentStatus env (Suc k) = settle ((k + 2) * pollInterval) tk"
    by (simp add: tk_def)
  show "attempts (pollPaymentStatus env (Suc k)) = Suc k"
    by (simp only: run settle_keeps(3) tk)
  obtain es where "events (settle ((k + 2) * pollInterval) tk) = events tk @ es"
    using settle_keeps(4) by blast
  then show "\<exists>rest. events (pollPaymentStatus env (Suc k)) =
         issued k @ Query (Suc k * pollInterval) (Suc k) # rest"
    by (simp only: run tk) simp
qed

theorem poller_query_error_swallowed_witness:
  "query_error (Response 503 InvalidJson) \<and> attempts idle_poller < maxAttempts \<and>
   resume 10300 (Response 503 InvalidJson) idle_poller = idle_poller \<and>
   maxAttempts \<le> attempts last_poller \<and>
   resume 60300 (Response 503 InvalidJson) last_poller =
     stop 60300 TIMEOUT (HandlePaymentFailure timeout_message) last_poller \<and>
   (1::nat) \<le> 5 \<and> 5 < maxAttempts \<and> nonterminal_upto error_fifth_reply 5 \<and>
   query_error (result (error_fifth_reply 5)) \<and>
   attempts (pollPaymentStatus error_fifth_reply 5) = 5 \<and>
   pollTimer (pollPaymentStatus error_fifth_reply 5) \<and>
   callbacks (events (pollPaymentStatus error_fifth_reply 5)) = [] \<and>
   attempts (pollPaymentStatus error_fifth_reply (Suc 5)) = Suc 5 \<and>
   (\<exists>rest. events (pollPaymentStatus error_fifth_reply (Suc 5)) =
      issued 5 @ Query 12000 6 # rest)"
proof -
  have h: "query_error (Response 503 InvalidJson)" "attempts idle_poller < maxAttempts"
    "maxAttempts \<le> attempts last_poller" "(1::nat) \<le> 5" "5 < maxAttempts"
    "nonterminal_upto error_fifth_reply 5" "query_error (result (error_fifth_reply 5))"
    by (simp_all add: query_error_def ok_def idle_poller_def last_poller_def maxAttempts_def
        nonterminal_error_fifth error_fifth_reply_def)
  from poller_query_error_swallowed
      [of "Response 503 InvalidJson" idle_poller 10300 5 error_fifth_reply]
    poller_query_error_swallowed
      [of "Response 503 InvalidJson" last_poller 60300 5 error_fifth_reply]
    h
  show ?thesis by (simp add: pollInterval_def)
qed

text \<open>
  C5 as stated fails: the request of attempt 5 fails with a network error only after
  51 seconds, all other answers are pending and immediate. The timeout failure is reported
  at 60000 ms by the thirtieth attempt, and the error of attempt 5, handled at 61000 ms
  when the counter is 30, reports it a second time.
\<close>

theorem poller_late_error_fires_timeout:
  "query_error (result (late_error_reply 5)) \<and> latency (late_error_reply 5) = 51000 \<and>
   inflight (pollPaymentStatus late_error_reply 29) = [(61000, NetworkFailure)] \<and>
   events (pollPaymentStatus late_error_reply 30) =
     issued 30 @
       [Fired 60000 TIMEOUT (HandlePaymentFailure timeout_message),
        Fired 61000 TIMEOUT (HandlePaymentFailure timeout_message)]"
  by (simp add: late_error_29 late_error_30 late_error_reply_def query_error_def)

text \<open>
  C6, as the code has it. For the status FAILED the message passed to
  handlePaymentFailure is the error message of the service when there is one (not empty),
  and \<open>Payment was declined\<close> otherwise. For the status CANCELLED it is always
  \<open>Payment was cancelled\<close>, whatever the service sent. When the budget is exhausted the
  message tells the user to check the M-Pesa inbox.
\<close>

theorem poller_failure_messages:
  "(ok code \<and> status d = ''FAILED'' \<and> error d = Some msg \<and> msg \<noteq> [] \<longrightarrow>
      resume t (Response code (Json d)) st = stop t FAILED (HandlePaymentFailure msg) st) \<and>
   (ok code \<and> status d = ''FAILED'' \<and> \<not> truthy_str (error d) \<longrightarrow>
      resume t (Response code (Json d)) st =
        stop t FAILED (HandlePaymentFailure ''Payment was declined'') st) \<and>
   (ok code \<and> status d = ''CANCELLED'' \<longrightarrow>
      resume t (Response code (Json d)) st =
        stop t CANCELLED (HandlePaymentFailure ''Payment was cancelled'') st) \<and>
   (\<not> terminal r \<and> maxAttempts \<le> attempts st \<longrightarrow>
      resume t r st =
        stop t TIMEOUT
          (HandlePaymentFailure ''Payment confirmation timeout. Please check your M-Pesa inbox.'')
          st)"
  using resume_timeout [of r st t]
  by (auto simp: resume_def or_str_def truthy_str_def timeout_message_def split: option.splits)

theorem poller_failure_messages_witness:
  "ok 200 \<and> status failed_data = ''FAILED'' \<and> error failed_data = Some ''Insufficient funds'' \<and>
   events (resume 2000 (Response 200 (Json failed_data)) idle_poller) =
     [Query 2000 1, Fired 2000 FAILED (HandlePaymentFailure ''Insufficient funds'')] \<and>
   \<not> truthy_str (error (failed_data\<lparr>error := None\<rparr>)) \<and>
   events (resume 2000 (Response 200 (Json (failed_data\<lparr>error := None\<rparr>))) idle_poller) =
     [Query 2000 1, Fired 2000 FAILED (HandlePaymentFailure ''Payment was declined'')] \<and>
   status (cancelled_data\<lparr>error := None\<rparr>) = ''CANCELLED'' \<and>
   events (resume 2000 (Response 200 (Json (cancelled_data\<lparr>error := None\<rparr>))) idle_poller) =
     [Query 2000 1, Fired 2000 CANCELLED (HandlePaymentFailure ''Payment was cancelled'')] \<and>
   \<not> terminal NetworkFailure \<and> maxAttempts \<le> attempts last_poller \<and>
   events (resume 60000 NetworkFailure last_poller) =
     issued 30 @ [Fired 60000 TIMEOUT
       (HandlePaymentFailure ''Payment confirmation timeout. Please check your M-Pesa inbox.'')]"
  using poller_failure_messages [of 200 failed_data "''Insufficient funds''" 2000 idle_poller
      NetworkFailure]
    poller_failure_messages [of 200 "failed_data\<lparr>error := None\<rparr>" "[]" 2000 idle_poller
      NetworkFailure]
    poller_failure_messages [of 200 "cancelled_data\<lparr>error := None\<rparr>" "[]" 2000 idle_poller
      NetworkFailure]
    poller_failure_messages [of 200 failed_data "[]" 60000 last_poller NetworkFailure]
  by (simp add: ok_def failed_data_def cancelled_data_def truthy_str_def stop_def
      idle_poller_def last_poller_def maxAttempts_def)

text \<open>
  C6 as stated fails for CANCELLED: the service sends the error message
  \<open>Request cancelled by user\<close>, and the message passed to handlePaymentFailure is
  \<open>Payment was cancelled\<close>.
\<close>

theorem poller_cancelled_ignores_service_message:
  "status cancelled_data = ''CANCELLED'' \<and>
   error cancelled_data = Some ''Request cancelled by user'' \<and>
   events (resume 2000 (Response 200 (Json cancelled_data)) idle_poller) =
     [Query 2000 1, Fired 2000 CANCELLED (HandlePaymentFailure ''Payment was cancelled'')]"
  by (simp add: resume_def stop_def ok_def cancelled_data_def idle_poller_def)

text \<open>
  C7, on the code. A request made the way fetchProducts makes it is aborted at
  TIMEOUT_MS (15000 ms) when the answer takes 20500 ms. The status request of the poller
  carries no abort signal: its answer is awaited for the whole 20500 ms, while ten more
  requests are issued, and handlePaymentSuccess is called when it arrives, at 22500 ms.
\<close>

theorem status_query_never_aborted:
  "fetch_with_abort (answer 20500 success_data) = (TIMEOUT_MS, Aborted) \<and>
   fetch_plain (answer 20500 success_data) = (20500, Response 200 (Json success_data)) \<and>
   events (pollPaymentStatus slow_success_reply 11) =
     issued 11 @ [Fired 22500 SUCCESS (HandlePaymentSuccess success_data)]"
  by (simp add: slow_success_11 fetch_with_abort_def fetch_plain_def TIMEOUT_MS_def answer_def)

text \<open>
  C8. For every string, escapeHtml returns the string in which each of the five characters
  ampersand, less-than, greater-than, double quote and apostrophe is replaced by its
  entity and every other character is kept, so the result holds no raw less-than,
  greater-than, double quote or apostrophe. For every falsy argument (the empty string,
  null, undefined among them) it returns the empty string.
\<close>

theorem escapeHtml_no_raw_markup:
  "(\<exists>out. escapeHtml (JStr s) = Inr out \<and> out = concat (map escape_char s) \<and>
      CHR ''<'' \<notin> set out \<and> CHR ''>'' \<notin> set out \<and>
      CHR 0x22 \<notin> set out \<and> CHR 0x27 \<notin> set out) \<and>
   escape_char (CHR ''&'') = ''&amp;'' \<and> escape_char (CHR ''<'') = ''&lt;'' \<and>
   escape_char (CHR ''>'') = ''&gt;'' \<and> escape_char (CHR 0x22) = ''&quot;'' \<and>
   escape_char (CHR 0x27) = ''&#039;'' \<and>
   (c \<notin> {CHR ''&'', CHR ''<'', CHR ''>'', CHR 0x22, CHR 0x27} \<longrightarrow> escape_char c = [c]) \<and>
   (falsy v \<longrightarrow> escapeHtml v = Inr []) \<and>
   escapeHtml (JStr []) = Inr [] \<and> escapeHtml JNull = Inr [] \<and> escapeHtml JUndefined = Inr []"
proof -
  have "escapeHtml (JStr s) = Inr (concat (map escape_char s))"
    by (simp add: escapeHtml_def falsy_def)
  then show ?thesis
    using escape_all_safe [of s] by (simp add: escapeHtml_def falsy_def)
qed

theorem escapeHtml_no_raw_markup_witness:
  "escapeHtml (JStr ''<a href=\"x\">Tom & Jerry's</a>'') =
     Inr ''&lt;a href=&quot;x&quot;&gt;Tom &amp; Jerry&#039;s&lt;/a&gt;'' \<and>
   CHR ''T'' \<notin> {CHR ''&'', CHR ''<'', CHR ''>'', CHR 0x22, CHR 0x27} \<and>
   escape_char (CHR ''T'') = ''T'' \<and>
   falsy (JNum 0) \<and> escapeHtml (JNum 0) = Inr []"
  using escapeHtml_no_raw_markup [of "''<a href=\"x\">Tom & Jerry's</a>''" "CHR ''T''" "JNum 0"]
  by (simp add: falsy_def)

text \<open>
  C9. filterProducts sets filteredProducts to the products of allProducts that pass the
  category and the search test, so to a subset of allProducts. A product is kept only if
  one of product_name, supplier_name and sku is present (and not empty) and contains the
  query as a contiguous run of characters: a name in lower case contains the query in
  lower case, or the sku as it is contains the query as it is. This holds whatever the
  case mapping \<open>toLowerCase\<close> of the platform is. With the category \<open>all\<close> and the empty
  query, a product without any of the three fields is left out.
\<close>

theorem filterProducts_needs_searchable_field:
  "set (filteredProducts (filterProducts toLowerCase st)) \<subseteq> set (allProducts st) \<and>
   filteredProducts (filterProducts toLowerCase st) =
     filter (\<lambda>p. matchesCategory toLowerCase (activeCategory st) p \<and>
                 matchesSearch toLowerCase (searchQuery st) p)
       (allProducts st) \<and>
   (p \<in> set (filteredProducts (filterProducts toLowerCase st)) \<longrightarrow>
      (\<exists>s pre post. s \<noteq> [] \<and>
         (product_name p = Some s \<and>
            toLowerCase s = pre @ toLowerCase (searchQuery st) @ post \<or>
          supplier_name p = Some s \<and>
            toLowerCase s = pre @ toLowerCase (searchQuery st) @ post \<or>
          sku p = Some s \<and> s = pre @ searchQuery st @ post))) \<and>
   (\<not> truthy_str (product_name p) \<and> \<not> truthy_str (supplier_name p) \<and> \<not> truthy_str (sku p) \<longrightarrow>
      p \<notin> set (filteredProducts
                 (filterProducts toLowerCase
                    (st\<lparr>activeCategory := ''all'', searchQuery := []\<rparr>))))"
proof -
  have "\<exists>s pre post. s \<noteq> [] \<and>
         (product_name p = Some s \<and> toLowerCase s = pre @ toLowerCase q @ post \<or>
          supplier_name p = Some s \<and> toLowerCase s = pre @ toLowerCase q @ post \<or>
          sku p = Some s \<and> s = pre @ q @ post)" if m: "matchesSearch toLowerCase q p" for q
  proof -
    from m consider
      "field_matches (product_name p) (\<lambda>s. includes_str (toLowerCase s) (toLowerCase q))"
      | "field_matches (supplier_name p) (\<lambda>s. includes_str (toLowerCase s) (toLowerCase q))"
      | "field_matches (sku p) (\<lambda>s. includes_str s q)"
      unfolding matchesSearch_def by blast
    then show ?thesis
    proof cases
      case 1
      then obtain s where "product_name p = Some s" "s \<noteq> []"
        "includes_str (toLowerCase s) (toLowerCase q)"
        by (blast dest: field_matches_present)
      then show ?thesis unfolding includes_str_iff by blast
    next
      case 2
      then obtain s where "supplier_name p = Some s" "s \<noteq> []"
        "includes_str (toLowerCase s) (toLowerCase q)"
        by (blast dest: field_matches_present)
      then show ?thesis unfolding includes_str_iff by blast
    next
      case 3
      then obtain s where "sku p = Some s" "s \<noteq> []" "includes_str s q"
        by (blast dest: field_matches_present)
      then show ?thesis unfolding includes_str_iff by blast
    qed
  qed
  moreover have "\<not> matchesSearch toLowerCase q p"
    if "\<not> truthy_str (product_name p)" "\<not> truthy_str (supplier_name p)"
      "\<not> truthy_str (sku p)" for q
    using that by (simp add: matchesSearch_def field_matches_absent)
  ultimately show ?thesis
    by (simp add: filterProducts_def)
qed

theorem filterProducts_needs_searchable_field_witness:
  "filteredProducts (filterProducts ascii_lower demo_catalogue) = [steel_pipe] \<and>
   steel_pipe \<in> set (filteredProducts (filterProducts ascii_lower demo_catalogue)) \<and>
   product_name steel_pipe = Some ''Steel Pipe'' \<and>
   ascii_lower ''Steel Pipe'' = ''steel '' @ ascii_lower ''PIPE'' @ [] \<and>
   \<not> truthy_str (product_name nameless) \<and> \<not> truthy_str (supplier_name nameless) \<and>
   \<not> truthy_str (sku nameless) \<and>
   nameless \<in> set (allProducts demo_catalogue) \<and>
   nameless \<notin> set (filteredProducts
     (filterProducts ascii_lower
        (demo_catalogue\<lparr>activeCategory := ''all'', searchQuery := []\<rparr>)))"
proof -
  note f = demo_filtered
  have c: "product_name steel_pipe = Some ''Steel Pipe''"
    "ascii_lower ''Steel Pipe'' = ''steel '' @ ascii_lower ''PIPE'' @ []"
    "\<not> truthy_str (product_name nameless)" "\<not> truthy_str (supplier_name nameless)"
    "\<not> truthy_str (sku nameless)" "nameless \<in> set (allProducts demo_catalogue)"
    by (simp_all add: lower_steel lower_pipe steel_pipe_def nameless_def
        truthy_str_def demo_catalogue_def)
  have "nameless \<notin> set (filteredProducts
     (filterProducts ascii_lower
        (demo_catalogue\<lparr>activeCategory := ''all'', searchQuery := []\<rparr>)))"
    using filterProducts_needs_searchable_field [of ascii_lower demo_catalogue nameless] c
    by blast
  with c f show ?thesis by simp
qed




end
